theory Spec2Isabelle
  imports Main
begin

section \<open>env-resolver: the pattern expansion and the candidate selection of resolver.ts\<close>

subsection \<open>Data model\<close>

text \<open>
  \<^verbatim>\<open>EnvPatternPart = { value: string, type: 'filename' | 'node_env', optional?: boolean }\<close>.
  The field \<open>optional\<close> may be absent (\<open>None\<close>); the code only tests its truthiness.
\<close>

datatype part_type = Filename | Node_env

record EnvPatternPart =
  value' :: string
  type' :: part_type
  optional :: "bool option"

text \<open>Truthiness of \<^verbatim>\<open>part.optional\<close>: absent and \<^verbatim>\<open>false\<close> are both falsy.\<close>

definition is_optional :: "EnvPatternPart \<Rightarrow> bool" where
  "is_optional part = (optional part = Some True)"

subsection \<open>The active environment name\<close>

text \<open>
  \<^verbatim>\<open>const env = process.env.NODE_ENV || 'development'\<close>.
  The variable is a string or absent; \<^verbatim>\<open>||\<close> takes its right operand when the left one is
  falsy, that is when the variable is absent or the empty string.
\<close>

definition env :: "string option \<Rightarrow> string" where
  "env node_env =
     (case node_env of
        None \<Rightarrow> ''development''
      | Some s \<Rightarrow> (if s = [] then ''development'' else s))"

subsection \<open>String.prototype.replace with a string pattern\<close>

text \<open>
  \<^verbatim>\<open>part.value.replace('$1', env)\<close> calls the ECMAScript method with a string pattern
  and a string replacement: only the first occurrence of the pattern is replaced, and the
  replacement is a template in which \<^verbatim>\<open>$$\<close> stands for a dollar sign, \<^verbatim>\<open>$&\<close> for the
  matched text, \<^verbatim>\<open>$`\<close> for the text before the match and \<^verbatim>\<open>$'\<close> for the text after
  it. A string pattern has no capture groups, so a dollar sign followed by digits or by
  \<^verbatim>\<open><\<close> stays as it is, like every other character.
\<close>

fun find_sub :: "string \<Rightarrow> string \<Rightarrow> (string \<times> string) option" where
  "find_sub pat [] = (if pat = [] then Some ([], []) else None)"
| "find_sub pat (c # cs) =
     (if take (length pat) (c # cs) = pat then Some ([], drop (length pat) (c # cs))
      else (case find_sub pat cs of
              None \<Rightarrow> None
            | Some (pre, post) \<Rightarrow> Some (c # pre, post)))"

fun getSubstitution :: "string \<Rightarrow> string \<Rightarrow> string \<Rightarrow> string \<Rightarrow> string" where
  "getSubstitution matched pre post [] = []"
| "getSubstitution matched pre post [c] = [c]"
| "getSubstitution matched pre post (c # d # r) =
     (if c = CHR ''$'' \<and> d = CHR ''$'' then CHR ''$'' # getSubstitution matched pre post r
      else if c = CHR ''$'' \<and> d = CHR ''&'' then matched @ getSubstitution matched pre post r
      else if c = CHR ''$'' \<and> d = CHR 0x60 then pre @ getSubstitution matched pre post r
      else if c = CHR ''$'' \<and> d = CHR 0x27 then post @ getSubstitution matched pre post r
      else c # getSubstitution matched pre post (d # r))"

definition js_replace :: "string \<Rightarrow> string \<Rightarrow> string \<Rightarrow> string" where
  "js_replace s pat replacement =
     (case find_sub pat s of
        None \<Rightarrow> s
      | Some (pre, post) \<Rightarrow> pre @ getSubstitution pat pre post replacement @ post)"

subsection \<open>processPattern and generatePatternCombinations\<close>

text \<open>
  Both functions compute the contribution of a part with the same expression,
  \<^verbatim>\<open>part.type === 'node_env' ? part.value.replace('$1', env) : part.value\<close>
  (named \<^verbatim>\<open>processed\<close> in generatePatternCombinations).
\<close>

definition processed :: "string option \<Rightarrow> EnvPatternPart \<Rightarrow> string" where
  "processed node_env part =
     (if type' part = Node_env then js_replace (value' part) ''$1'' (env node_env)
      else value' part)"

text \<open>\<^verbatim>\<open>Array.prototype.join(separator)\<close> on an array of strings.\<close>

fun join :: "string \<Rightarrow> string list \<Rightarrow> string" where
  "join sep [] = []"
| "join sep [x] = x"
| "join sep (x # y # ys) = x @ sep @ join sep (y # ys)"

text \<open>\<^verbatim>\<open>pattern.map(part => ...).join('')\<close>\<close>

definition processPattern :: "string option \<Rightarrow> EnvPatternPart list \<Rightarrow> string" where
  "processPattern node_env pattern = join [] (map (processed node_env) pattern)"

text \<open>
  The inner loop \<^verbatim>\<open>for (let i = 0; i < currentLength; i++)\<close> on the array of arrays
  \<open>combinations\<close>: when the part is optional a copy of \<open>combinations[i]\<close> is pushed at
  the end, then \<open>processed\<close> is pushed onto \<open>combinations[i]\<close>. The copy is a fresh
  array, so no two entries share storage and the array is a list of lists.
\<close>

function inner_loop ::
  "bool \<Rightarrow> string \<Rightarrow> nat \<Rightarrow> nat \<Rightarrow> string list list \<Rightarrow> string list list" where
  "inner_loop opt pr currentLength i combinations =
     (if i < currentLength then
        (let pushed = (if opt then combinations @ [combinations ! i] else combinations)
         in inner_loop opt pr currentLength (Suc i) (pushed[i := pushed ! i @ [pr]]))
      else combinations)"
  by pat_completeness auto
termination
  by (relation "measure (\<lambda>(opt, pr, currentLength, i, combinations). currentLength - i)") auto

text \<open>The body of \<^verbatim>\<open>pattern.forEach(part => ...)\<close>.\<close>

definition for_each_part ::
  "string option \<Rightarrow> string list list \<Rightarrow> EnvPatternPart \<Rightarrow> string list list" where
  "for_each_part node_env combinations part =
     inner_loop (is_optional part) (processed node_env part) (length combinations) 0 combinations"

definition generatePatternCombinations :: "string option \<Rightarrow> EnvPatternPart list \<Rightarrow> string list" where
  "generatePatternCombinations node_env pattern =
     map (join []) (foldl (for_each_part node_env) [[]] pattern)"

subsection \<open>resolveEnvPath\<close>

text \<open>
  What the function takes from its host: the variable \<^verbatim>\<open>process.env.NODE_ENV\<close>,
  \<^verbatim>\<open>path.resolve\<close>, \<^verbatim>\<open>fs.existsSync\<close> and the two styling functions of colors-cli.
  The Nest logger is modelled by the list of notifications it receives:
  \<^verbatim>\<open>Logger.log\<close> is the info level, \<^verbatim>\<open>Logger.warn\<close> the warning level.
\<close>

record host =
  NODE_ENV :: "string option"
  resolve :: "string \<Rightarrow> string"
  existsSync :: "string \<Rightarrow> bool"
  green :: "string \<Rightarrow> string"
  cyan :: "string \<Rightarrow> string"

datatype level = Log | Warn

datatype error = Error string

record config =
  resolvedBy :: "string option"
  filepath :: "string option"

text \<open>
  \<^verbatim>\<open>const filepath = resolve(`${dest}/${filename}`)\<close> and the loop
  \<^verbatim>\<open>for (const filename of filesToTry) { ... if (existsSync(filepath)) { ...; break } }\<close>.
  The second component of the loop's result lists the paths given to \<^verbatim>\<open>existsSync\<close>,
  in call order.
\<close>

definition candidate_path :: "host \<Rightarrow> string \<Rightarrow> string \<Rightarrow> string" where
  "candidate_path h dest filename = resolve h (dest @ ''/'' @ filename)"

fun try_files :: "host \<Rightarrow> string \<Rightarrow> string list \<Rightarrow> config \<times> string list" where
  "try_files h dest [] = (\<lparr>resolvedBy = None, filepath = None\<rparr>, [])"
| "try_files h dest (filename # rest) =
     (let fp = candidate_path h dest filename
      in if existsSync h fp then (\<lparr>resolvedBy = Some filename, filepath = Some fp\<rparr>, [fp])
         else (case try_files h dest rest of (c, tested) \<Rightarrow> (c, fp # tested)))"

text \<open>The defaults of the second and third parameter.\<close>

definition default_ignoreEnvSpecificWarn :: bool where
  "default_ignoreEnvSpecificWarn = False"

definition default_pattern :: "EnvPatternPart list" where
  "default_pattern =
     [\<lparr>value' = ''.env'', type' = Filename, optional = None\<rparr>,
      \<lparr>value' = ''.$1'', type' = Node_env, optional = Some True\<rparr>]"

definition defaultPattern :: "EnvPatternPart list" where
  "defaultPattern = [\<lparr>value' = ''.env'', type' = Filename, optional = None\<rparr>]"

definition filesToTry :: "string option \<Rightarrow> EnvPatternPart list \<Rightarrow> string list" where
  "filesToTry node_env pattern =
     generatePatternCombinations node_env pattern @ generatePatternCombinations node_env defaultPattern"

definition error_message :: "string list \<Rightarrow> string" where
  "error_message files =
     ''Couldn't load environment file from any sources:'' @ [CHR 0x0A] @ ''Tried: '' @
     join ([CHR 0x0A] @ ''  - '') files"

text \<open>
  The result of a call: what is returned or thrown, the paths tested and the notifications
  logged. \<^verbatim>\<open>!config.filepath\<close> holds for \<^verbatim>\<open>null\<close> and for the empty string.
  \<^verbatim>\<open>config.resolvedBy\<close> is set with \<^verbatim>\<open>config.filepath\<close>, so it is a string wherever
  it is styled; the branch for \<^verbatim>\<open>null\<close> is never taken.
\<close>

record outcome =
  returned :: "error + string"
  tested :: "string list"
  logged :: "(level \<times> string) list"

definition resolveEnvPath :: "host \<Rightarrow> string \<Rightarrow> bool \<Rightarrow> EnvPatternPart list \<Rightarrow> outcome" where
  "resolveEnvPath h dest ignoreEnvSpecificWarn pattern =
     (let files = filesToTry (NODE_ENV h) pattern;
          (config, paths) = try_files h dest files
      in case filepath config of
           None \<Rightarrow> \<lparr>returned = Inl (Error (error_message files)), tested = paths, logged = []\<rparr>
         | Some fp \<Rightarrow>
             if fp = [] then
               \<lparr>returned = Inl (Error (error_message files)), tested = paths, logged = []\<rparr>
             else if resolvedBy config = Some ''.env'' then
               (if \<not> ignoreEnvSpecificWarn then
                  \<lparr>returned = Inr fp, tested = paths,
                   logged = [(Warn, ''Using fallback .env file'')]\<rparr>
                else
                  \<lparr>returned = Inr fp, tested = paths, logged = [(Log, ''Using .env file'')]\<rparr>)
             else
               \<lparr>returned = Inr fp, tested = paths,
                logged = [(Log, green h (''Using '' @
                   cyan h (case resolvedBy config of None \<Rightarrow> ''null'' | Some f \<Rightarrow> f) @ '' file''))]\<rparr>)"

subsection \<open>The reference algorithm of the specification\<close>

text \<open>
  Section 4.2 of the specification, in its own words: a working list of filename prefixes
  that starts with one empty prefix; the parts are processed in sequence order; for an
  optional part every existing prefix is first cloned as it is and the clones are appended
  to the working list; then the contribution of the part is appended to every prefix that
  existed before the clone step. The contribution of a part is a parameter.
\<close>

definition reference_step ::
  "(EnvPatternPart \<Rightarrow> string) \<Rightarrow> string list \<Rightarrow> EnvPatternPart \<Rightarrow> string list" where
  "reference_step contribution prefixes part =
     (let clones = (if is_optional part then prefixes else [])
      in map (\<lambda>prefix. prefix @ contribution part) prefixes @ clones)"

definition reference_combinations ::
  "(EnvPatternPart \<Rightarrow> string) \<Rightarrow> EnvPatternPart list \<Rightarrow> string list" where
  "reference_combinations contribution pattern = foldl (reference_step contribution) [[]] pattern"

text \<open>
  The candidate of list position \<open>j\<close>, read off the binary digits of \<open>j\<close>: the lowest digit
  decides the first optional part of the pattern (0 keeps it, 1 leaves it out), the next
  digit the second optional part, and so on. Mandatory parts are always kept.
\<close>

fun combination_at :: "(EnvPatternPart \<Rightarrow> string) \<Rightarrow> EnvPatternPart list \<Rightarrow> nat \<Rightarrow> string" where
  "combination_at contribution [] j = []"
| "combination_at contribution (part # rest) j =
     (if is_optional part then
        (if even j then contribution part else []) @ combination_at contribution rest (j div 2)
      else contribution part @ combination_at contribution rest j)"

text \<open>
  The ordering sentence of section 4.2 as it is written, "excluding later optional parts
  before earlier ones in terms of list position": of two optional parts, the candidate that
  leaves out only the later one stands before the candidate that leaves out only the
  earlier one.
\<close>

definition without :: "string option \<Rightarrow> EnvPatternPart list \<Rightarrow> nat \<Rightarrow> string" where
  "without node_env pattern a =
     join [] (map (processed node_env) (take a pattern @ drop (Suc a) pattern))"

fun position :: "string \<Rightarrow> string list \<Rightarrow> nat" where
  "position x [] = 0"
| "position x (y # ys) = (if x = y then 0 else Suc (position x ys))"

definition later_excluded_before_earlier :: "string option \<Rightarrow> EnvPatternPart list \<Rightarrow> bool" where
  "later_excluded_before_earlier node_env pattern =
     (\<forall>b \<in> {..<length pattern}. \<forall>a \<in> {..<b}.
        is_optional (pattern ! a) \<and> is_optional (pattern ! b) \<longrightarrow>
        position (without node_env pattern b) (generatePatternCombinations node_env pattern)
          < position (without node_env pattern a) (generatePatternCombinations node_env pattern))"

subsection \<open>Inputs of the scenarios\<close>

text \<open>The custom pattern of the README and of scenario 4.\<close>

definition customPattern :: "EnvPatternPart list" where
  "customPattern =
     [\<lparr>value' = ''.env'', type' = Filename, optional = None\<rparr>,
      \<lparr>value' = ''.$1'', type' = Node_env, optional = Some True\<rparr>,
      \<lparr>value' = ''.local'', type' = Filename, optional = Some True\<rparr>]"

text \<open>
  A host whose working directory is \<^verbatim>\<open>/app\<close>, whose file system holds exactly the paths of
  the list and whose styling functions add nothing.
\<close>

definition host_with :: "string option \<Rightarrow> string list \<Rightarrow> host" where
  "host_with node_env files =
     \<lparr>NODE_ENV = node_env, resolve = (\<lambda>p. ''/app/'' @ p),
      existsSync = (\<lambda>p. p \<in> set files), green = (\<lambda>s. s), cyan = (\<lambda>s. s)\<rparr>"

section \<open>Properties\<close>

declare inner_loop.simps [simp del]

subsection \<open>The loops of generatePatternCombinations\<close>

lemma join_empty: "join [] xs = concat xs"
  by (induction "[]::string" xs rule: join.induct) simp_all

text \<open>
  The inner loop started at index \<open>i\<close> on an array of at least \<open>n\<close> entries: the entries
  from \<open>i\<close> to \<open>n - 1\<close> get the contribution, and their copies are added at the end when
  the part is optional.
\<close>

lemma inner_loop_general:
  "i \<le> n \<Longrightarrow> n \<le> length xs \<Longrightarrow>
   inner_loop opt pr n i xs =
     take i xs @ map (\<lambda>c. c @ [pr]) (take (n - i) (drop i xs)) @ drop n xs @
     (if opt then take (n - i) (drop i xs) else [])"
proof (induction opt pr n i xs rule: inner_loop.induct)
  case (1 opt pr n i xs)
  show ?case
  proof (cases "i < n")
    case False
    with 1(2) have "i = n" by simp
    then show ?thesis by (simp add: inner_loop.simps[of opt pr n n xs])
  next
    case True
    define pushed where "pushed = (if opt then xs @ [xs ! i] else xs)"
    define ys where "ys = pushed[i := pushed ! i @ [pr]]"
    have il: "i < length xs" using True 1(3) by simp
    have len: "length ys = length pushed" "length xs \<le> length pushed"
      by (simp_all add: ys_def pushed_def)
    have step: "inner_loop opt pr n i xs = inner_loop opt pr n (Suc i) ys"
      using True by (subst inner_loop.simps) (simp add: ys_def pushed_def Let_def)
    have nth: "pushed ! i = xs ! i" using il by (simp add: pushed_def nth_append)
    have IH: "inner_loop opt pr n (Suc i) ys =
       take (Suc i) ys @ map (\<lambda>c. c @ [pr]) (take (n - Suc i) (drop (Suc i) ys)) @ drop n ys @
       (if opt then take (n - Suc i) (drop (Suc i) ys) else [])"
      using 1(1)[OF True pushed_def] True 1(3) len unfolding ys_def by simp
    have t: "take (Suc i) ys = take i xs @ [xs ! i @ [pr]]"
      using il by (simp add: ys_def nth pushed_def take_Suc_conv_app_nth nth_append)
    have d: "drop (Suc i) ys = drop (Suc i) xs @ (if opt then [xs ! i] else [])"
      using il by (simp add: ys_def pushed_def)
    have dn: "drop n ys = drop n xs @ (if opt then [xs ! i] else [])"
      using il True 1(3) by (simp add: ys_def pushed_def drop_update_cancel)
    have tk: "take (n - Suc i) (drop (Suc i) ys) = take (n - Suc i) (drop (Suc i) xs)"
      using 1(3) by (simp add: d)
    have split: "take (n - i) (drop i xs) = xs ! i # take (n - Suc i) (drop (Suc i) xs)"
      using il True by (metis Cons_nth_drop_Suc Suc_diff_Suc take_Suc_Cons)
    show ?thesis
      unfolding step IH t dn tk split by simp
  qed
qed

lemma for_each_part_eq:
  "for_each_part e cs part =
     map (\<lambda>c. c @ [processed e part]) cs @ (if is_optional part then cs else [])"
  unfolding for_each_part_def by (simp add: inner_loop_general)

text \<open>Each optional part doubles the array, a mandatory part keeps its length.\<close>

lemma length_foldl_for_each_part:
  "length (foldl (for_each_part e) cs p) = length cs * 2 ^ length (filter is_optional p)"
  by (induction p arbitrary: cs) (simp_all add: for_each_part_eq)

lemma length_generatePatternCombinations:
  "length (generatePatternCombinations e p) = 2 ^ length (filter is_optional p)"
  by (simp add: generatePatternCombinations_def length_foldl_for_each_part)

text \<open>Joining the entries turns one round of the loop into one step of the reference algorithm.\<close>

lemma map_join_for_each_part:
  "map (join []) (for_each_part e cs part) = reference_step (processed e) (map (join []) cs) part"
  by (simp add: for_each_part_eq reference_step_def join_empty)

lemma foldl_refines:
  "map (join []) (foldl (for_each_part e) cs p) =
   foldl (reference_step (processed e)) (map (join []) cs) p"
  by (induction p arbitrary: cs) (simp_all add: map_join_for_each_part)

lemma generate_refines:
  "generatePatternCombinations e p = reference_combinations (processed e) p"
  by (simp add: generatePatternCombinations_def reference_combinations_def foldl_refines)

text \<open>
  The entry at index \<open>j\<close> after the remaining parts, from an array of \<open>n\<close> entries: it
  extends entry \<open>j mod n\<close>, and the digits of \<open>j div n\<close> say which optional parts it has.
\<close>

lemma nth_foldl_for_each_part:
  "cs \<noteq> [] \<Longrightarrow> j < length cs * 2 ^ length (filter is_optional p) \<Longrightarrow>
   join [] (foldl (for_each_part e) cs p ! j) =
     join [] (cs ! (j mod length cs)) @ combination_at (processed e) p (j div length cs)"
proof (induction p arbitrary: cs j)
  case Nil
  then show ?case by simp
next
  case (Cons part rest)
  let ?n = "length cs"
  let ?g = "\<lambda>c. c @ [processed e part]"
  have n0: "0 < ?n" using Cons.prems(1) by simp
  show ?case
  proof (cases "is_optional part")
    case False
    then have step: "for_each_part e cs part = map ?g cs" by (simp add: for_each_part_eq)
    have jm: "j mod ?n < ?n" using n0 by simp
    have "join [] (foldl (for_each_part e) (map ?g cs) rest ! j) =
          join [] (map ?g cs ! (j mod ?n)) @ combination_at (processed e) rest (j div ?n)"
      using Cons.IH[of "map ?g cs" j] Cons.prems False by simp
    then show ?thesis using False jm by (simp add: step join_empty)
  next
    case True
    then have step: "for_each_part e cs part = map ?g cs @ cs" by (simp add: for_each_part_eq)
    have jlt: "j < length (map ?g cs @ cs) * 2 ^ length (filter is_optional rest)"
      using Cons.prems(2) True by (simp add: algebra_simps)
    have ne: "map ?g cs @ cs \<noteq> []" using Cons.prems(1) by simp
    have IH: "join [] (foldl (for_each_part e) (map ?g cs @ cs) rest ! j) =
          join [] ((map ?g cs @ cs) ! (j mod (?n * 2))) @
          combination_at (processed e) rest (j div (?n * 2))"
      using Cons.IH[OF ne jlt] by (simp add: mult_2_right)
    have dv: "j div (?n * 2) = j div ?n div 2" by (simp add: div_mult2_eq)
    have md: "j mod (?n * 2) = ?n * (j div ?n mod 2) + j mod ?n" by (rule mod_mult2_eq)
    have jm: "j mod ?n < ?n" using n0 by simp
    show ?thesis
    proof (cases "even (j div ?n)")
      case e: True
      then have "j mod (?n * 2) = j mod ?n" using md by simp
      then show ?thesis using True e jm IH dv by (simp add: step nth_append join_empty)
    next
      case o: False
      then have "j div ?n mod 2 = 1" by (simp add: odd_iff_mod_2_eq_one)
      then have "j mod (?n * 2) = ?n + j mod ?n" using md by simp
      then show ?thesis using True o jm IH dv by (simp add: step nth_append join_empty)
    qed
  qed
qed

lemma nth_generatePatternCombinations:
  "j < 2 ^ length (filter is_optional p) \<Longrightarrow>
   generatePatternCombinations e p ! j = combination_at (processed e) p j"
  using nth_foldl_for_each_part[of "[[]]" j p e]
  by (simp add: generatePatternCombinations_def length_foldl_for_each_part)

lemma combination_at_zero: "combination_at f p 0 = concat (map f p)"
  by (induction p) simp_all

lemma generatePatternCombinations_first:
  "\<exists>rest. generatePatternCombinations e p = processPattern e p # rest"
proof -
  have len: "0 < length (generatePatternCombinations e p)"
    by (simp add: length_generatePatternCombinations)
  have "generatePatternCombinations e p ! 0 = processPattern e p"
    by (simp add: nth_generatePatternCombinations combination_at_zero processPattern_def join_empty)
  with len show ?thesis
    by (cases "generatePatternCombinations e p") auto
qed

lemma generatePatternCombinations_mandatory:
  assumes "filter is_optional p = []"
  shows "generatePatternCombinations e p = [processPattern e p]"
proof -
  have "length (generatePatternCombinations e p) = 1"
    using assms by (simp add: length_generatePatternCombinations)
  moreover obtain rest where "generatePatternCombinations e p = processPattern e p # rest"
    using generatePatternCombinations_first by blast
  ultimately show ?thesis by simp
qed

lemma customPattern_test:
  "generatePatternCombinations (Some ''test'') customPattern =
     [''.env.test.local'', ''.env.local'', ''.env.test'', ''.env'']"
  by (simp add: generate_refines reference_combinations_def customPattern_def reference_step_def
      is_optional_def processed_def js_replace_def env_def)

subsection \<open>The claims about generatePatternCombinations\<close>

text \<open>
  C4. For every pattern with \<open>k\<close> optional parts the Combination Generator returns a list
  of exactly \<open>2 ^ k\<close> candidate strings. The length counts list positions, so candidates
  of equal value are not collapsed.
\<close>

theorem generatePatternCombinations_length:
  "length (generatePatternCombinations node_env pattern) =
     2 ^ length (filter is_optional pattern)"
  by (rule length_generatePatternCombinations)

text \<open>
  C1, as amended. For every pattern the list returned by the Combination Generator equals
  the list of the reference algorithm of section 4.2, and the candidates stand in the order
  in which their clones were created: the candidate at position \<open>j\<close> leaves out exactly
  the optional parts whose digit in \<open>j\<close> is 1, the lowest digit standing for the first
  optional part. Leaving out an earlier optional part therefore comes before leaving out a
  later one.
\<close>

theorem generatePatternCombinations_refines_reference:
  "generatePatternCombinations node_env pattern =
     reference_combinations (processed node_env) pattern \<and>
   (\<forall>j < 2 ^ length (filter is_optional pattern).
      generatePatternCombinations node_env pattern ! j =
        combination_at (processed node_env) pattern j)"
proof (intro conjI allI impI)
  show "generatePatternCombinations node_env pattern =
          reference_combinations (processed node_env) pattern"
    by (rule generate_refines)
next
  fix j :: nat
  assume "j < 2 ^ length (filter is_optional pattern)"
  then show "generatePatternCombinations node_env pattern ! j =
               combination_at (processed node_env) pattern j"
    by (rule nth_generatePatternCombinations)
qed

theorem generatePatternCombinations_refines_reference_witness:
  "(2::nat) < 2 ^ length (filter is_optional customPattern) \<and>
   reference_combinations (processed (Some ''test'')) customPattern =
     [''.env.test.local'', ''.env.local'', ''.env.test'', ''.env''] \<and>
   generatePatternCombinations (Some ''test'') customPattern ! 2 = ''.env.test'' \<and>
   combination_at (processed (Some ''test'')) customPattern 2 = ''.env.test''"
proof -
  have k: "(2::nat) < 2 ^ length (filter is_optional customPattern)"
    by (simp add: customPattern_def is_optional_def)
  have v: "generatePatternCombinations (Some ''test'') customPattern ! 2 = ''.env.test''"
    by (simp add: customPattern_test)
  note t = generatePatternCombinations_refines_reference [of "Some ''test''" customPattern]
  have r: "generatePatternCombinations (Some ''test'') customPattern =
             reference_combinations (processed (Some ''test'')) customPattern"
    using t by (rule conjunct1)
  have n: "\<forall>j < 2 ^ length (filter is_optional customPattern).
             generatePatternCombinations (Some ''test'') customPattern ! j =
               combination_at (processed (Some ''test'')) customPattern j"
    using t by (rule conjunct2)
  from n k have "combination_at (processed (Some ''test'')) customPattern 2 =
      generatePatternCombinations (Some ''test'') customPattern ! 2"
    by simp
  with k v r [symmetric] show ?thesis by (simp add: customPattern_test)
qed

text \<open>
  The ordering sentence of C1 as it is written fails on the pattern of scenario 4 with the
  environment name \<open>test\<close>: the candidate without the later optional part, \<open>.env.test\<close>,
  stands at position 2, after the candidate without the earlier one, \<open>.env.local\<close>, at
  position 1.
\<close>

theorem later_excluded_before_earlier_counterexample:
  "\<not> later_excluded_before_earlier (Some ''test'') customPattern"
proof
  assume "later_excluded_before_earlier (Some ''test'') customPattern"
  then have
    "is_optional (customPattern ! 1) \<and> is_optional (customPattern ! 2) \<longrightarrow>
     position (without (Some ''test'') customPattern 2)
       (generatePatternCombinations (Some ''test'') customPattern)
     < position (without (Some ''test'') customPattern 1)
       (generatePatternCombinations (Some ''test'') customPattern)"
    unfolding later_excluded_before_earlier_def
    by (simp add: customPattern_def)
  then show False
    unfolding customPattern_test
    by (simp add: customPattern_def without_def is_optional_def processed_def js_replace_def
        env_def)
qed

text \<open>
  C9. For every pattern the combination that includes all parts, the contributions of the
  parts concatenated in sequence order (what processPattern returns), is the first element
  of the list of the Combination Generator; a pattern without optional parts gives exactly
  this one candidate, and the empty pattern gives one empty string.
\<close>

theorem all_parts_included_first:
  "(\<exists>rest. generatePatternCombinations node_env pattern =
      processPattern node_env pattern # rest) \<and>
   (filter is_optional pattern = [] \<longrightarrow>
      generatePatternCombinations node_env pattern = [processPattern node_env pattern]) \<and>
   processPattern node_env pattern = concat (map (processed node_env) pattern) \<and>
   generatePatternCombinations node_env [] = [[]]"
  using generatePatternCombinations_first [of node_env pattern]
    generatePatternCombinations_mandatory [of pattern node_env]
    generatePatternCombinations_mandatory [of "[]" node_env]
  by (simp add: processPattern_def join_empty)

theorem all_parts_included_first_witness:
  "filter is_optional defaultPattern = [] \<and>
   generatePatternCombinations (Some ''test'') defaultPattern = [''.env''] \<and>
   processPattern (Some ''test'') defaultPattern = ''.env''"
proof -
  have m: "filter is_optional defaultPattern = []"
    by (simp add: defaultPattern_def is_optional_def)
  have v: "processPattern (Some ''test'') defaultPattern = ''.env''"
    by (simp add: processPattern_def defaultPattern_def processed_def)
  from all_parts_included_first [of "Some ''test''" defaultPattern] m v
  show ?thesis by simp
qed

subsection \<open>The substitution of the environment name\<close>

lemma getSubstitution_plain:
  "CHR ''$'' \<notin> set t \<Longrightarrow> getSubstitution m b a t = t"
proof (induction m b a t rule: getSubstitution.induct)
  case (3 matched pre post c d r)
  from "3.prems" have c: "c \<noteq> CHR ''$''" and d: "CHR ''$'' \<notin> set (d # r)"
    by auto
  from c d "3.IH"(5) show ?case by simp
qed simp_all

lemma find_sub_Some: "find_sub pat s = Some (b, a) \<Longrightarrow> s = b @ pat @ a"
proof (induction s arbitrary: b)
  case Nil
  then show ?case by (simp split: if_splits)
next
  case (Cons c cs)
  show ?case
  proof (cases "take (length pat) (c # cs) = pat")
    case True
    with Cons.prems have "b = []" "a = drop (length pat) (c # cs)" by simp_all
    with True show ?thesis by (metis append_Nil append_take_drop_id)
  next
    case False
    with Cons.prems obtain b' where "find_sub pat cs = Some (b', a)" "b = c # b'"
      by (auto split: option.splits)
    with Cons.IH show ?thesis by simp
  qed
qed

text \<open>When the search finds nothing, the pattern does not occur in the string.\<close>

lemma find_sub_None: "find_sub pat s = None \<Longrightarrow> s \<noteq> b @ pat @ a"
proof (induction s arbitrary: b)
  case Nil
  then show ?case by (simp split: if_splits)
next
  case (Cons c cs)
  from Cons.prems have t: "take (length pat) (c # cs) \<noteq> pat" and n: "find_sub pat cs = None"
    by (auto split: if_splits option.splits prod.splits)
  show ?case
  proof (cases b)
    case Nil
    show ?thesis
    proof
      assume "c # cs = b @ pat @ a"
      with Nil have "take (length pat) (c # cs) = pat" by simp
      with t show False by simp
    qed
  next
    case (Cons d b')
    with Cons.IH [OF n, of b'] show ?thesis by simp
  qed
qed

lemma js_replace_plain:
  "CHR ''$'' \<notin> set r \<Longrightarrow>
   js_replace s pat r = (case find_sub pat s of None \<Rightarrow> s | Some (b, a) \<Rightarrow> b @ r @ a)"
  by (simp add: js_replace_def getSubstitution_plain split: option.splits)

lemma env_None: "env None = ''development''"
  by (simp add: env_def)

lemma env_empty: "env (Some []) = ''development''"
  by (simp add: env_def)

lemma env_nonempty: "env node_env \<noteq> []"
  by (simp add: env_def split: option.splits)

text \<open>
  The contribution of a part: a literal part gives its value, an environment-name part
  without the placeholder gives its value, and an environment name without a dollar sign
  takes the place of the first placeholder as it is.
\<close>

lemma processed_cases:
  "(type' part = Filename \<longrightarrow> processed e part = value' part) \<and>
   (type' part = Node_env \<and> find_sub ''$1'' (value' part) = None \<longrightarrow>
      processed e part = value' part) \<and>
   (type' part = Node_env \<and> find_sub ''$1'' (value' part) = Some (pre, post) \<and>
    CHR ''$'' \<notin> set (env e) \<longrightarrow>
      processed e part = pre @ env e @ post)"
  by (simp add: processed_def js_replace_def getSubstitution_plain)

text \<open>The candidates depend on the variable only through the active environment name.\<close>

lemma processed_cong:
  assumes "env e1 = env e2"
  shows "processed e1 = processed e2"
proof
  fix part
  show "processed e1 part = processed e2 part"
    unfolding processed_def assms ..
qed

lemma generatePatternCombinations_cong:
  assumes "env e1 = env e2"
  shows "generatePatternCombinations e1 p = generatePatternCombinations e2 p"
  unfolding generate_refines processed_cong [OF assms] ..

lemma processPattern_cong:
  assumes "env e1 = env e2"
  shows "processPattern e1 p = processPattern e2 p"
  unfolding processPattern_def processed_cong [OF assms] ..

lemma defaultPattern_candidates: "generatePatternCombinations e defaultPattern = [''.env'']"
  by (simp add: generate_refines reference_combinations_def reference_step_def defaultPattern_def
      is_optional_def processed_def)

subsection \<open>The loop of resolveEnvPath\<close>

lemma try_files_find:
  "try_files h dest files =
     (case find (\<lambda>f. existsSync h (candidate_path h dest f)) files of
        None \<Rightarrow> (\<lparr>resolvedBy = None, filepath = None\<rparr>, map (candidate_path h dest) files)
      | Some f \<Rightarrow>
          (\<lparr>resolvedBy = Some f, filepath = Some (candidate_path h dest f)\<rparr>,
           map (candidate_path h dest)
             (takeWhile (\<lambda>g. \<not> existsSync h (candidate_path h dest g)) files) @
           [candidate_path h dest f]))"
  by (induction files) (simp_all add: Let_def split: option.splits)

lemma resolveEnvPath_eq:
  "resolveEnvPath h dest ig pattern =
     (case find (\<lambda>f. existsSync h (candidate_path h dest f)) (filesToTry (NODE_ENV h) pattern) of
        None \<Rightarrow>
          \<lparr>returned = Inl (Error (error_message (filesToTry (NODE_ENV h) pattern))),
           tested = map (candidate_path h dest) (filesToTry (NODE_ENV h) pattern),
           logged = []\<rparr>
      | Some f \<Rightarrow>
          \<lparr>returned =
             (if candidate_path h dest f = []
              then Inl (Error (error_message (filesToTry (NODE_ENV h) pattern)))
              else Inr (candidate_path h dest f)),
           tested =
             map (candidate_path h dest)
               (takeWhile (\<lambda>g. \<not> existsSync h (candidate_path h dest g))
                  (filesToTry (NODE_ENV h) pattern)) @
             [candidate_path h dest f],
           logged =
             (if candidate_path h dest f = [] then []
              else if f = ''.env'' then
                (if ig then [(Log, ''Using .env file'')]
                 else [(Warn, ''Using fallback .env file'')])
              else [(Log, green h (''Using '' @ cyan h f @ '' file''))])\<rparr>)"
  by (simp add: resolveEnvPath_def try_files_find Let_def split: option.splits)

subsection \<open>The claims about the candidates and the environment name\<close>

text \<open>
  C6. For every custom pattern the full ordered candidate list is the expansion of the
  custom pattern followed by the expansion of the built-in fallback pattern, and that
  expansion is the one-element list of \<open>.env\<close> whatever the custom pattern and the
  environment name are.
\<close>

theorem filesToTry_custom_then_fallback:
  "filesToTry node_env pattern =
     generatePatternCombinations node_env pattern @
     generatePatternCombinations node_env defaultPattern \<and>
   generatePatternCombinations node_env defaultPattern = [''.env''] \<and>
   filesToTry node_env pattern = generatePatternCombinations node_env pattern @ [''.env'']"
  by (simp add: filesToTry_def defaultPattern_candidates)

text \<open>
  C7. The claim says that the placeholder of an environment-name part is replaced verbatim
  by the active environment name. The code calls \<^verbatim>\<open>replace\<close> with the name as the
  replacement template, so a name that holds a dollar pattern is not inserted verbatim:
  with \<^verbatim>\<open>NODE_ENV\<close> set to \<^verbatim>\<open>$&\<close> the part \<^verbatim>\<open>.$1\<close> gives \<^verbatim>\<open>.$1\<close>, not \<^verbatim>\<open>.$&\<close>.
\<close>

theorem processed_dollar_pattern_not_verbatim:
  "env (Some ''$&'') = ''$&'' \<and>
   processed (Some ''$&'') \<lparr>value' = ''.$1'', type' = Node_env, optional = Some True\<rparr> = ''.$1'' \<and>
   processed (Some ''$&'') \<lparr>value' = ''.$1'', type' = Node_env, optional = Some True\<rparr> \<noteq> ''.$&''"
  by (simp add: processed_def js_replace_def env_def)

text \<open>
  C8. When the variable that names the environment is unset, the active environment name is
  the literal \<open>development\<close>, and it replaces the placeholder of every environment-name
  part: \<open>pre\<close> and \<open>post\<close> are the text before and after the first placeholder.
\<close>

theorem unset_env_substitutes_development:
  "env None = ''development'' \<and>
   generatePatternCombinations None pattern =
     generatePatternCombinations (Some ''development'') pattern \<and>
   processPattern None pattern = processPattern (Some ''development'') pattern \<and>
   (type' part = Node_env \<and> find_sub ''$1'' (value' part) = Some (pre, post) \<longrightarrow>
      value' part = pre @ ''$1'' @ post \<and>
      processed None part = pre @ ''development'' @ post)"
proof -
  have e: "env None = env (Some ''development'')" by (simp add: env_def)
  have "value' part = pre @ ''$1'' @ post \<and> processed None part = pre @ ''development'' @ post"
    if "type' part = Node_env" and f: "find_sub ''$1'' (value' part) = Some (pre, post)"
    using that find_sub_Some [OF f] by (simp add: processed_def env_None js_replace_plain)
  moreover note generatePatternCombinations_cong [OF e, of pattern]
    processPattern_cong [OF e, of pattern] env_None
  ultimately show ?thesis by blast
qed

theorem unset_env_substitutes_development_witness:
  "type' \<lparr>value' = ''.$1'', type' = Node_env, optional = Some True\<rparr> = Node_env \<and>
   find_sub ''$1'' (value' \<lparr>value' = ''.$1'', type' = Node_env, optional = Some True\<rparr>) =
     Some (''.'', []) \<and>
   processed None \<lparr>value' = ''.$1'', type' = Node_env, optional = Some True\<rparr> =
     ''.development'' \<and>
   generatePatternCombinations None default_pattern = [''.env.development'', ''.env'']"
proof -
  have f: "find_sub ''$1'' (value' \<lparr>value' = ''.$1'', type' = Node_env, optional = Some True\<rparr>) =
      Some (''.'', [])"
    by simp
  have g: "generatePatternCombinations (Some ''development'') default_pattern =
      [''.env.development'', ''.env'']"
    by (simp add: generate_refines reference_combinations_def reference_step_def
        default_pattern_def is_optional_def processed_def js_replace_def env_def)
  from unset_env_substitutes_development
    [of default_pattern "\<lparr>value' = ''.$1'', type' = Node_env, optional = Some True\<rparr>" "''.''" "[]"]
    f g
  show ?thesis by simp
qed

text \<open>
  C10. A variable set to the empty string behaves as an unset one: the active environment
  name is \<open>development\<close>, the Combination Generator and the Resolver give the same results,
  and the active environment name is never the empty string.
\<close>

theorem empty_env_as_unset:
  "env (Some []) = env None \<and>
   env (Some []) = ''development'' \<and>
   processed (Some []) part = processed None part \<and>
   generatePatternCombinations (Some []) pattern = generatePatternCombinations None pattern \<and>
   resolveEnvPath (h\<lparr>NODE_ENV := Some []\<rparr>) dest ignoreEnvSpecificWarn pattern =
     resolveEnvPath (h\<lparr>NODE_ENV := None\<rparr>) dest ignoreEnvSpecificWarn pattern \<and>
   env node_env \<noteq> []"
proof -
  have e: "env (Some []) = env None" by (simp add: env_def)
  have p: "processed (Some []) part = processed None part"
    by (simp add: processed_cong [OF e])
  have g: "generatePatternCombinations (Some []) q = generatePatternCombinations None q" for q
    by (rule generatePatternCombinations_cong [OF e])
  have t: "try_files (h\<lparr>NODE_ENV := x\<rparr>) dest files = try_files h dest files" for x files
    by (induction files) (simp_all add: candidate_path_def Let_def)
  have r: "resolveEnvPath (h\<lparr>NODE_ENV := Some []\<rparr>) dest ignoreEnvSpecificWarn pattern =
     resolveEnvPath (h\<lparr>NODE_ENV := None\<rparr>) dest ignoreEnvSpecificWarn pattern"
    by (simp add: resolveEnvPath_def t filesToTry_def g Let_def
        split: prod.splits option.splits)
  from e p g r show ?thesis by (simp add: env_None env_nonempty)
qed

subsection \<open>The outcome of resolveEnvPath\<close>

lemma first_existing_find:
  assumes "i < length files" "P (files ! i)" "\<forall>j<i. \<not> P (files ! j)"
  shows "find P files = Some (files ! i)" "takeWhile (\<lambda>g. \<not> P g) files = take i files"
proof -
  show "find P files = Some (files ! i)"
    using assms by (auto simp: find_Some_iff)
  show "takeWhile (\<lambda>g. \<not> P g) files = take i files"
    using assms by (intro takeWhile_eq_take_P_nth) auto
qed

lemma resolveEnvPath_hit:
  assumes "i < length (filesToTry (NODE_ENV h) pattern)"
    and "existsSync h (candidate_path h dest (filesToTry (NODE_ENV h) pattern ! i))"
    and "\<forall>j<i. \<not> existsSync h (candidate_path h dest (filesToTry (NODE_ENV h) pattern ! j))"
    and "candidate_path h dest (filesToTry (NODE_ENV h) pattern ! i) \<noteq> []"
  shows "resolveEnvPath h dest ig pattern =
     \<lparr>returned = Inr (candidate_path h dest (filesToTry (NODE_ENV h) pattern ! i)),
      tested = map (candidate_path h dest) (take (Suc i) (filesToTry (NODE_ENV h) pattern)),
      logged =
        (if filesToTry (NODE_ENV h) pattern ! i = ''.env'' then
           (if ig then [(Log, ''Using .env file'')] else [(Warn, ''Using fallback .env file'')])
         else [(Log, green h (''Using '' @ cyan h (filesToTry (NODE_ENV h) pattern ! i) @
                 '' file''))])\<rparr>"
proof -
  let ?files = "filesToTry (NODE_ENV h) pattern"
  let ?P = "\<lambda>f. existsSync h (candidate_path h dest f)"
  note f = first_existing_find [of i ?files ?P, OF assms(1) assms(2) assms(3)]
  have t: "map (candidate_path h dest) (take i ?files) @ [candidate_path h dest (?files ! i)] =
      map (candidate_path h dest) (take (Suc i) ?files)"
    using assms(1) by (simp add: take_Suc_conv_app_nth)
  show ?thesis
    unfolding resolveEnvPath_eq f using assms(4) t by simp
qed

lemma resolveEnvPath_miss:
  assumes "\<forall>f \<in> set (filesToTry (NODE_ENV h) pattern). \<not> existsSync h (candidate_path h dest f)"
  shows "resolveEnvPath h dest ig pattern =
     \<lparr>returned = Inl (Error (error_message (filesToTry (NODE_ENV h) pattern))),
      tested = map (candidate_path h dest) (filesToTry (NODE_ENV h) pattern),
      logged = []\<rparr>"
proof -
  have "find (\<lambda>f. existsSync h (candidate_path h dest f)) (filesToTry (NODE_ENV h) pattern) = None"
    using assms by (simp add: find_None_iff)
  then show ?thesis unfolding resolveEnvPath_eq by simp
qed

lemma resolveEnvPath_cases:
  obtains (miss) "\<forall>f \<in> set (filesToTry (NODE_ENV h) pattern). \<not> existsSync h (candidate_path h dest f)"
  | (hit) i where "i < length (filesToTry (NODE_ENV h) pattern)"
      "existsSync h (candidate_path h dest (filesToTry (NODE_ENV h) pattern ! i))"
      "\<forall>j<i. \<not> existsSync h (candidate_path h dest (filesToTry (NODE_ENV h) pattern ! j))"
proof (cases "find (\<lambda>f. existsSync h (candidate_path h dest f)) (filesToTry (NODE_ENV h) pattern)")
  case None
  then show ?thesis using miss by (auto simp: find_None_iff)
next
  case (Some f)
  then show ?thesis using hit by (auto simp: find_Some_iff)
qed

lemma default_pattern_unset:
  "filesToTry None default_pattern = [''.env.development'', ''.env'', ''.env'']"
proof -
  have "generatePatternCombinations None default_pattern = [''.env.development'', ''.env'']"
    by (simp add: generate_refines reference_combinations_def reference_step_def
        default_pattern_def is_optional_def processed_def js_replace_def env_def)
  then show ?thesis
    unfolding filesToTry_def defaultPattern_candidates by simp
qed

subsection \<open>The claims about resolveEnvPath\<close>

text \<open>
  C2. The Resolver walks the candidate list in order and tests the path of each candidate,
  joined to the base directory and resolved. The first candidate whose path exists, at
  index \<open>i\<close>, is selected: its resolved path is returned, and exactly the paths of the
  candidates up to index \<open>i\<close> have been tested, none after it. When no path exists, the
  paths of all candidates have been tested. (\<^verbatim>\<open>path.resolve\<close> returns an absolute path,
  which is never the empty string.)
\<close>

theorem resolveEnvPath_first_existing:
  "(i < length (filesToTry (NODE_ENV h) pattern) \<and>
    existsSync h (resolve h (dest @ ''/'' @ filesToTry (NODE_ENV h) pattern ! i)) \<and>
    (\<forall>j<i. \<not> existsSync h (resolve h (dest @ ''/'' @ filesToTry (NODE_ENV h) pattern ! j))) \<and>
    resolve h (dest @ ''/'' @ filesToTry (NODE_ENV h) pattern ! i) \<noteq> [] \<longrightarrow>
      returned (resolveEnvPath h dest ignoreEnvSpecificWarn pattern) =
        Inr (resolve h (dest @ ''/'' @ filesToTry (NODE_ENV h) pattern ! i)) \<and>
      tested (resolveEnvPath h dest ignoreEnvSpecificWarn pattern) =
        map (\<lambda>filename. resolve h (dest @ ''/'' @ filename))
          (take (Suc i) (filesToTry (NODE_ENV h) pattern))) \<and>
   ((\<forall>f \<in> set (filesToTry (NODE_ENV h) pattern).
       \<not> existsSync h (resolve h (dest @ ''/'' @ f))) \<longrightarrow>
      tested (resolveEnvPath h dest ignoreEnvSpecificWarn pattern) =
        map (\<lambda>filename. resolve h (dest @ ''/'' @ filename)) (filesToTry (NODE_ENV h) pattern))"
proof -
  have c: "candidate_path h dest = (\<lambda>filename. resolve h (dest @ ''/'' @ filename))"
    by (rule ext) (simp add: candidate_path_def)
  show ?thesis
    using resolveEnvPath_hit [of i h pattern dest ignoreEnvSpecificWarn]
      resolveEnvPath_miss [of h pattern dest ignoreEnvSpecificWarn]
    unfolding c by simp
qed

theorem resolveEnvPath_first_existing_witness:
  "filesToTry None default_pattern = [''.env.development'', ''.env'', ''.env''] \<and>
   returned (resolveEnvPath (host_with None [''/app/cfg/.env'']) ''cfg'' False default_pattern) =
     Inr ''/app/cfg/.env'' \<and>
   tested (resolveEnvPath (host_with None [''/app/cfg/.env'']) ''cfg'' False default_pattern) =
     [''/app/cfg/.env.development'', ''/app/cfg/.env''] \<and>
   tested (resolveEnvPath (host_with None []) ''cfg'' False default_pattern) =
     [''/app/cfg/.env.development'', ''/app/cfg/.env'', ''/app/cfg/.env'']"
  using resolveEnvPath_first_existing
    [of 1 "host_with None [''/app/cfg/.env'']" default_pattern "''cfg''" False]
    resolveEnvPath_first_existing [of 0 "host_with None []" default_pattern "''cfg''" False]
  by (simp add: host_with_def default_pattern_unset)

text \<open>
  C3. The Resolver fails if and only if no candidate of the list, the expansions of the
  custom pattern followed by the fallback, passes the existence check; then every candidate
  has been tested, and the message of the error lists all candidates in that order.
\<close>

theorem resolveEnvPath_failure:
  assumes "\<forall>f \<in> set (filesToTry (NODE_ENV h) pattern). resolve h (dest @ ''/'' @ f) \<noteq> []"
  shows "((\<exists>e. returned (resolveEnvPath h dest ignoreEnvSpecificWarn pattern) = Inl e) \<longleftrightarrow>
          (\<forall>f \<in> set (generatePatternCombinations (NODE_ENV h) pattern @ [''.env'']).
             \<not> existsSync h (resolve h (dest @ ''/'' @ f)))) \<and>
         (\<forall>e. returned (resolveEnvPath h dest ignoreEnvSpecificWarn pattern) = Inl e \<longrightarrow>
            e = Error (''Couldn't load environment file from any sources:'' @ [CHR 0x0A] @
                  ''Tried: '' @
                  join ([CHR 0x0A] @ ''  - '')
                    (generatePatternCombinations (NODE_ENV h) pattern @ [''.env''])) \<and>
            tested (resolveEnvPath h dest ignoreEnvSpecificWarn pattern) =
              map (\<lambda>filename. resolve h (dest @ ''/'' @ filename))
                (generatePatternCombinations (NODE_ENV h) pattern @ [''.env'']))"
proof -
  let ?files = "filesToTry (NODE_ENV h) pattern"
  have c: "candidate_path h dest = (\<lambda>filename. resolve h (dest @ ''/'' @ filename))"
    by (rule ext) (simp add: candidate_path_def)
  have fs: "?files = generatePatternCombinations (NODE_ENV h) pattern @ [''.env'']"
    by (simp add: filesToTry_def defaultPattern_candidates)
  show ?thesis
  proof (cases rule: resolveEnvPath_cases [of h pattern dest])
    case miss
    from resolveEnvPath_miss [OF miss, of ignoreEnvSpecificWarn] miss
    show ?thesis unfolding c fs by (simp add: error_message_def)
  next
    case (hit i)
    from hit(1) assms have "candidate_path h dest (?files ! i) \<noteq> []"
      unfolding c by simp
    from resolveEnvPath_hit [OF hit this, of ignoreEnvSpecificWarn]
    have r: "returned (resolveEnvPath h dest ignoreEnvSpecificWarn pattern) =
        Inr (candidate_path h dest (?files ! i))"
      by simp
    have "\<exists>f \<in> set ?files. existsSync h (candidate_path h dest f)"
      using hit(1,2) nth_mem by blast
    with r show ?thesis unfolding c fs by auto
  qed
qed

theorem resolveEnvPath_failure_witness:
  "returned (resolveEnvPath (host_with (Some ''test'') []) ''cfg'' False customPattern) =
     Inl (Error (''Couldn't load environment file from any sources:'' @ [CHR 0x0A] @
       ''Tried: .env.test.local'' @ [CHR 0x0A] @ ''  - .env.local'' @ [CHR 0x0A] @
       ''  - .env.test'' @ [CHR 0x0A] @ ''  - .env'' @ [CHR 0x0A] @ ''  - .env'')) \<and>
   tested (resolveEnvPath (host_with (Some ''test'') []) ''cfg'' False customPattern) =
     [''/app/cfg/.env.test.local'', ''/app/cfg/.env.local'', ''/app/cfg/.env.test'',
      ''/app/cfg/.env'', ''/app/cfg/.env'']"
proof -
  let ?h = "host_with (Some ''test'') []"
  have n: "NODE_ENV ?h = Some ''test''" by (simp add: host_with_def)
  have a: "\<forall>f \<in> set (filesToTry (NODE_ENV ?h) customPattern). resolve ?h (''cfg'' @ ''/'' @ f) \<noteq> []"
    by (simp add: host_with_def)
  have m: "\<forall>f \<in> set (generatePatternCombinations (NODE_ENV ?h) customPattern @ [''.env'']).
      \<not> existsSync ?h (resolve ?h (''cfg'' @ ''/'' @ f))"
    by (simp add: host_with_def)
  note t = resolveEnvPath_failure [OF a, of False]
  from t m obtain e where e: "returned (resolveEnvPath ?h ''cfg'' False customPattern) = Inl e"
    by blast
  with t have "e = Error (''Couldn't load environment file from any sources:'' @ [CHR 0x0A] @
                  ''Tried: '' @
                  join ([CHR 0x0A] @ ''  - '')
                    (generatePatternCombinations (NODE_ENV ?h) customPattern @ [''.env''])) \<and>
            tested (resolveEnvPath ?h ''cfg'' False customPattern) =
              map (\<lambda>filename. resolve ?h (''cfg'' @ ''/'' @ filename))
                (generatePatternCombinations (NODE_ENV ?h) customPattern @ [''.env''])"
    by blast
  with e show ?thesis
    unfolding n customPattern_test by (simp add: host_with_def)
qed

text \<open>
  C5. On success exactly one notification is emitted, classified by the matched candidate,
  the first candidate whose path exists: for \<open>.env\<close> a warning, or an info notification
  when the suppression flag is set; for every other candidate an info notification that
  names the candidate.
\<close>

theorem resolveEnvPath_notification:
  assumes "returned (resolveEnvPath h dest ignoreEnvSpecificWarn pattern) = Inr p"
  shows "\<exists>i < length (filesToTry (NODE_ENV h) pattern).
           existsSync h (resolve h (dest @ ''/'' @ filesToTry (NODE_ENV h) pattern ! i)) \<and>
           (\<forall>j<i. \<not> existsSync h (resolve h (dest @ ''/'' @ filesToTry (NODE_ENV h) pattern ! j))) \<and>
           p = resolve h (dest @ ''/'' @ filesToTry (NODE_ENV h) pattern ! i) \<and>
           logged (resolveEnvPath h dest ignoreEnvSpecificWarn pattern) =
             [if filesToTry (NODE_ENV h) pattern ! i = ''.env'' then
                (if ignoreEnvSpecificWarn then (Log, ''Using .env file'')
                 else (Warn, ''Using fallback .env file''))
              else (Log, green h (''Using '' @ cyan h (filesToTry (NODE_ENV h) pattern ! i) @
                      '' file''))]"
proof (cases rule: resolveEnvPath_cases [of h pattern dest])
  case miss
  from resolveEnvPath_miss [OF miss, of ignoreEnvSpecificWarn] assms show ?thesis by simp
next
  case (hit i)
  let ?f = "filesToTry (NODE_ENV h) pattern ! i"
  have ne: "candidate_path h dest ?f \<noteq> []"
  proof
    assume "candidate_path h dest ?f = []"
    moreover have "find (\<lambda>f. existsSync h (candidate_path h dest f))
        (filesToTry (NODE_ENV h) pattern) = Some ?f"
      using hit by (rule first_existing_find(1))
    ultimately have "returned (resolveEnvPath h dest ignoreEnvSpecificWarn pattern) =
        Inl (Error (error_message (filesToTry (NODE_ENV h) pattern)))"
      unfolding resolveEnvPath_eq by simp
    with assms show False by simp
  qed
  note r = resolveEnvPath_hit [OF hit ne, of ignoreEnvSpecificWarn]
  from r assms have p: "p = candidate_path h dest ?f" by simp
  from r have l: "logged (resolveEnvPath h dest ignoreEnvSpecificWarn pattern) =
             [if ?f = ''.env'' then
                (if ignoreEnvSpecificWarn then (Log, ''Using .env file'')
                 else (Warn, ''Using fallback .env file''))
              else (Log, green h (''Using '' @ cyan h ?f @ '' file''))]"
    by simp
  from hit p l show ?thesis
    unfolding candidate_path_def by blast
qed

theorem resolveEnvPath_notification_witness:
  "returned (resolveEnvPath (host_with None [''/app/cfg/.env'']) ''cfg'' True default_pattern) =
     Inr ''/app/cfg/.env'' \<and>
   logged (resolveEnvPath (host_with None [''/app/cfg/.env'']) ''cfg'' True default_pattern) =
     [(Log, ''Using .env file'')]"
proof -
  let ?h = "host_with None [''/app/cfg/.env'']"
  let ?files = "filesToTry (NODE_ENV ?h) default_pattern"
  have r: "returned (resolveEnvPath ?h ''cfg'' True default_pattern) = Inr ''/app/cfg/.env''"
    using resolveEnvPath_hit [of 1 ?h default_pattern "''cfg''" True]
    by (simp add: host_with_def default_pattern_unset candidate_path_def)
  from resolveEnvPath_notification [OF r]
  obtain i where i: "existsSync ?h (resolve ?h (''cfg'' @ ''/'' @ ?files ! i))"
    and l: "logged (resolveEnvPath ?h ''cfg'' True default_pattern) =
      [if ?files ! i = ''.env'' then (if True then (Log, ''Using .env file'')
         else (Warn, ''Using fallback .env file''))
       else (Log, green ?h (''Using '' @ cyan ?h (?files ! i) @ '' file''))]"
    by blast
  from i have "?files ! i = ''.env''" by (simp add: host_with_def)
  with l r show ?thesis by simp
qed

end
